theory Spec2Isabelle
  imports Main
begin

section \<open>Congruence::KBFP: Knuth-Bendix followed by Froidure-Pin\<close>

text \<open>
  A shallow embedding of \<^verbatim>\<open>src/cong/kbfp.cc\<close>. The file implements the member functions
  of \<^verbatim>\<open>Congruence::KBFP\<close>; the classes it drives (\<^verbatim>\<open>RWS\<close>, \<^verbatim>\<open>RWSE\<close>,
  \<^verbatim>\<open>Semigroup\<close>, \<^verbatim>\<open>Congruence\<close>) and the header \<^verbatim>\<open>kbfp.h\<close> are not among the
  sources. Their member functions are parameters of the model (the record \<open>ops\<close>); what
  the specification promises of them is written as predicates on \<open>ops\<close> and assumed
  only where a property needs it.
\<close>

subsection \<open>Data\<close>

text \<open>\<^verbatim>\<open>word_t\<close> is a vector of \<^verbatim>\<open>size_t\<close> letters, \<^verbatim>\<open>rws_word_t\<close> a
  \<^verbatim>\<open>std::string\<close>, \<^verbatim>\<open>relation_t\<close> a pair of words. Sizes and indices are natural
  numbers: the only arithmetic of the file is \<^verbatim>\<open>current_size() + 1\<close> on the number of
  elements held in memory, which does not reach the largest \<^verbatim>\<open>size_t\<close>.\<close>

type_synonym word_t = "nat list"
type_synonym rws_word_t = "string"
type_synonym relation_t = "word_t \<times> word_t"

text \<open>\<^verbatim>\<open>Congruence::DATA::result_t\<close>.\<close>

datatype result_t = TRUE | FALSE | UNKNOWN

text \<open>How a call can end without returning: a failed \<^verbatim>\<open>assert\<close>, a call of a
  collaborator that never returns (completion need not terminate), a dereferenced
  null \<^verbatim>\<open>_semigroup\<close>.\<close>

datatype fault = AssertionFailed | NoReturn | NullPointer

text \<open>The fields of the enclosing \<^verbatim>\<open>Congruence\<close> that the file reads:
  \<^verbatim>\<open>_nrgens\<close>, \<^verbatim>\<open>relations()\<close>, \<^verbatim>\<open>extra()\<close> and the pointer \<^verbatim>\<open>_semigroup\<close>
  (\<open>None\<close> is \<^verbatim>\<open>nullptr\<close>).\<close>

record 'g cong_t =
  nrgens :: nat
  relations :: "relation_t list"
  extra :: "relation_t list"
  cong_semigroup :: "'g option"

text \<open>An \<^verbatim>\<open>RWSE\<close> holds a reference to the rewriting system that reduced it and the
  reduced word.\<close>

type_synonym 'r rwse = "'r \<times> rws_word_t"

text \<open>
  The member functions of the absent classes, as parameters. \<open>'r\<close> is the state of an
  \<^verbatim>\<open>RWS\<close>, \<open>'g\<close> the state of a \<^verbatim>\<open>Semigroup\<close>.

  The three calls that receive \<^verbatim>\<open>_killed\<close> by reference (\<open>init_relations\<close>,
  \<open>knuth_bendix\<close>, \<open>enumerate_sg\<close>) are the long-running ones. The flag is an atomic
  that the scheduler may set while they run, so each takes the value of the flag when
  it is called and returns, with its result, the value of the flag when it returns
  (lines 56 and 81 read the flag again after such a call).
  \<open>init_relations\<close> and \<open>knuth_bendix\<close> may never return (\<open>None\<close>).
  \<open>position\<close> returns \<open>None\<close> for \<^verbatim>\<open>Semigroup::UNDEFINED\<close>.
\<close>

record ('r, 'g) ops =
  init_relations :: "'g cong_t \<Rightarrow> 'g option \<Rightarrow> bool \<Rightarrow> (relation_t list \<times> bool) option"
  add_rules :: "'r \<Rightarrow> relation_t list \<Rightarrow> 'r"
  knuth_bendix :: "'r \<Rightarrow> bool \<Rightarrow> ('r \<times> bool) option"
  is_confluent :: "'r \<Rightarrow> bool"
  rewrite :: "'r \<Rightarrow> rws_word_t \<Rightarrow> rws_word_t"
  test_less_than :: "'r \<Rightarrow> rws_word_t \<Rightarrow> rws_word_t \<Rightarrow> bool"
  word_to_rws_word :: "word_t \<Rightarrow> rws_word_t"
  new_Semigroup :: "'r rwse list \<Rightarrow> 'g"
  set_batch_size :: "'g \<Rightarrow> nat \<Rightarrow> 'g"
  enumerate_sg :: "'g \<Rightarrow> bool \<Rightarrow> nat \<Rightarrow> 'g \<times> bool"
  current_size :: "'g \<Rightarrow> nat"
  position :: "'g \<Rightarrow> 'r rwse \<Rightarrow> nat option"
  sg_is_done :: "'g \<Rightarrow> bool"
  LIMIT_MAX :: nat

text \<open>
  The state of a \<^verbatim>\<open>KBFP\<close> object: the flag \<^verbatim>\<open>_killed\<close>, the enclosing congruence
  \<^verbatim>\<open>_cong\<close>, the rewriting system \<^verbatim>\<open>*_rws\<close>, the pointer \<^verbatim>\<open>_semigroup\<close>, and the
  free store as far as the file touches it: the addresses of the \<^verbatim>\<open>Element\<close> objects
  made by \<^verbatim>\<open>new\<close> and not yet deleted (\<open>live\<close>), and the next address \<^verbatim>\<open>new\<close> hands
  out (\<open>next_addr\<close>).
\<close>

record ('r, 'g) kbfp =
  killed :: bool
  cong :: "'g cong_t"
  rws :: 'r
  semigroup_p :: "'g option"
  live :: "nat set"
  next_addr :: nat

subsection \<open>Elements on the free store\<close>

text \<open>Modelled from the spec: the constructors of \<^verbatim>\<open>RWSE\<close> are in the absent
  \<^verbatim>\<open>rwse.h\<close>. A canonical element is "a word reduced to normal form by a
  RewritingEngine" with "a non-owning reference to the RewritingEngine that produced
  it"; the constructor from a letter is the constructor from the one-letter word.\<close>

definition RWSE_word :: "('r, 'g) ops \<Rightarrow> 'r \<Rightarrow> word_t \<Rightarrow> 'r rwse" where
  "RWSE_word ops r w = (r, rewrite ops r (word_to_rws_word ops w))"

definition RWSE_letter :: "('r, 'g) ops \<Rightarrow> 'r \<Rightarrow> nat \<Rightarrow> 'r rwse" where
  "RWSE_letter ops r i = RWSE_word ops r [i]"

text \<open>A pointer to an element is its address with the element it points to.
  \<^verbatim>\<open>new RWSE(...)\<close> takes the next address; \<^verbatim>\<open>x->really_delete(); delete x;\<close>
  gives the address back.\<close>

type_synonym 'r element_ptr = "nat \<times> 'r rwse"

definition new_element :: "'r rwse \<Rightarrow> ('r, 'g) kbfp \<Rightarrow> 'r element_ptr \<times> ('r, 'g) kbfp" where
  "new_element x s =
     ((next_addr s, x), s\<lparr>live := insert (next_addr s) (live s), next_addr := Suc (next_addr s)\<rparr>)"

definition delete_element :: "'r element_ptr \<Rightarrow> ('r, 'g) kbfp \<Rightarrow> ('r, 'g) kbfp" where
  "delete_element x s = s\<lparr>live := live s - {fst x}\<rparr>"

text \<open>\<^verbatim>\<open>really_delete_cont\<close>, lines 31-36: every element of the container is deleted.\<close>

primrec really_delete_cont :: "'r element_ptr list \<Rightarrow> ('r, 'g) kbfp \<Rightarrow> ('r, 'g) kbfp" where
  "really_delete_cont [] s = s"
| "really_delete_cont (x # cont) s = really_delete_cont cont (delete_element x s)"

text \<open>The loop of lines 63-65, for \<open>i\<close> running through the list given:
  \<^verbatim>\<open>gens.push_back(new RWSE(*_rws, i))\<close>.\<close>

primrec push_gens ::
  "('r, 'g) ops \<Rightarrow> nat list \<Rightarrow> 'r element_ptr list \<Rightarrow> ('r, 'g) kbfp
     \<Rightarrow> 'r element_ptr list \<times> ('r, 'g) kbfp" where
  "push_gens ops [] gens s = (gens, s)"
| "push_gens ops (i # is) gens s =
     (case new_element (RWSE_letter ops (rws s) i) s of
        (x, s') \<Rightarrow> push_gens ops is (gens @ [x]) s')"

subsection \<open>The member functions\<close>

text \<open>Each function takes the state of the object and returns the new state, or the
  fault at which the call ends. The \<^verbatim>\<open>REPORT\<close> lines print a progress message and do
  not touch the object; they are left out.\<close>

text \<open>Modelled from the spec: \<^verbatim>\<open>is_killed()\<close> belongs to the absent base class
  \<^verbatim>\<open>Congruence::DATA\<close>. It is the interface's \<open>is_cancelled()\<close>: it reads the flag.\<close>

definition is_killed :: "('r, 'g) kbfp \<Rightarrow> bool" where
  "is_killed s = killed s"

text \<open>Modelled from the spec: \<^verbatim>\<open>is_done()\<close> is defined in the absent \<^verbatim>\<open>kbfp.h\<close>. It is
  "true iff the EnumerationIndex has closed the full quotient and the instance was not
  cancelled"; line 88 relies on its implying \<^verbatim>\<open>_semigroup != nullptr\<close>.\<close>

definition is_done :: "('r, 'g) ops \<Rightarrow> ('r, 'g) kbfp \<Rightarrow> bool" where
  "is_done ops s =
     (case semigroup_p s of
        None \<Rightarrow> False
      | Some g \<Rightarrow> sg_is_done ops g \<and> \<not> killed s)"

text \<open>
  \<^verbatim>\<open>init()\<close>, lines 44-68. \<^verbatim>\<open>init_relations\<close> computes the relations of the
  congruence; they are stored and then read back by \<^verbatim>\<open>_cong.relations()\<close>.
\<close>

definition init :: "('r, 'g) ops \<Rightarrow> ('r, 'g) kbfp \<Rightarrow> fault + ('r, 'g) kbfp" where
  "init ops s =
     (case semigroup_p s of
        Some g \<Rightarrow> Inr s
      | None \<Rightarrow>
         (case init_relations ops (cong s) (cong_semigroup (cong s)) (killed s) of
            None \<Rightarrow> Inl NoReturn
          | Some (rels, k1) \<Rightarrow>
             (let c1 = (cong s)\<lparr>relations := rels\<rparr>;
                  r1 = add_rules ops (rws s) (relations c1);
                  r2 = add_rules ops r1 (extra c1)
              in if \<not> (cong_semigroup c1 = None \<or> extra c1 \<noteq> []) then Inl AssertionFailed
                 else
                  (case knuth_bendix ops r2 k1 of
                     None \<Rightarrow> Inl NoReturn
                   | Some (r3, k2) \<Rightarrow>
                      (let s1 = s\<lparr>killed := k2, cong := c1, rws := r3\<rparr>
                       in if killed s1 then Inr s1
                          else if \<not> is_confluent ops (rws s1) then Inl AssertionFailed
                          else
                           (case push_gens ops [0 ..< nrgens (cong s1)] [] s1 of
                              (gens, s2) \<Rightarrow>
                                Inr (really_delete_cont gens
                                      (s2\<lparr>semigroup_p :=
                                            Some (new_Semigroup ops (map snd gens))\<rparr>))))))))"

text \<open>\<^verbatim>\<open>run(size_t steps)\<close>, lines 70-84.\<close>

definition run_steps :: "('r, 'g) ops \<Rightarrow> nat \<Rightarrow> ('r, 'g) kbfp \<Rightarrow> fault + ('r, 'g) kbfp" where
  "run_steps ops steps s =
     (if is_done ops s then Inl AssertionFailed
      else
       (case init ops s of
          Inl e \<Rightarrow> Inl e
        | Inr s1 \<Rightarrow>
           if \<not> killed s1 then
             (case semigroup_p s1 of
                None \<Rightarrow> Inl NullPointer
              | Some g \<Rightarrow>
                 (let g1 = set_batch_size ops g steps
                  in case enumerate_sg ops g1 (killed s1) (current_size ops g1 + 1) of
                       (g2, k) \<Rightarrow> Inr (s1\<lparr>killed := k, semigroup_p := Some g2\<rparr>)))
           else Inr s1))"

text \<open>\<^verbatim>\<open>run()\<close>, lines 38-42. The loop need not end: \<open>None\<close> is the call that never
  returns.\<close>

partial_function (option) run :: "('r, 'g) ops \<Rightarrow> ('r, 'g) kbfp \<Rightarrow> (fault + ('r, 'g) kbfp) option" where
  "run ops s =
     (if \<not> killed s \<and> \<not> is_done ops s then
        (case run_steps ops (LIMIT_MAX ops) s of
           Inl e \<Rightarrow> Some (Inl e)
         | Inr s' \<Rightarrow> run ops s')
      else Some (Inr s))"

text \<open>\<^verbatim>\<open>word_to_class_index\<close>, lines 86-96.\<close>

definition word_to_class_index ::
  "('r, 'g) ops \<Rightarrow> ('r, 'g) kbfp \<Rightarrow> word_t \<Rightarrow> fault + (nat \<times> ('r, 'g) kbfp)" where
  "word_to_class_index ops s word =
     (if \<not> is_done ops s then Inl AssertionFailed
      else
       (case new_element (RWSE_word ops (rws s) word) s of
          (x, s1) \<Rightarrow>
           (case semigroup_p s1 of
              None \<Rightarrow> Inl NullPointer
            | Some g \<Rightarrow>
               (let pos = position ops g (snd x);
                    s2 = delete_element x s1
                in case pos of
                     None \<Rightarrow> Inl AssertionFailed
                   | Some p \<Rightarrow> Inr (p, s2)))))"

text \<open>\<^verbatim>\<open>current_equals\<close>, lines 98-109.\<close>

definition current_equals ::
  "('r, 'g) ops \<Rightarrow> ('r, 'g) kbfp \<Rightarrow> word_t \<Rightarrow> word_t \<Rightarrow> fault + (result_t \<times> ('r, 'g) kbfp)" where
  "current_equals ops s w1 w2 =
     (case init ops s of
        Inl e \<Rightarrow> Inl e
      | Inr s1 \<Rightarrow>
         if is_killed s1 then Inr (UNKNOWN, s1)
         else if \<not> is_confluent ops (rws s1) then Inl AssertionFailed
         else Inr (if rewrite ops (rws s1) (word_to_rws_word ops w1)
                        = rewrite ops (rws s1) (word_to_rws_word ops w2)
                   then TRUE else FALSE, s1))"

text \<open>\<^verbatim>\<open>current_less_than\<close>, lines 111-119.\<close>

definition current_less_than ::
  "('r, 'g) ops \<Rightarrow> ('r, 'g) kbfp \<Rightarrow> word_t \<Rightarrow> word_t \<Rightarrow> fault + (result_t \<times> ('r, 'g) kbfp)" where
  "current_less_than ops s w1 w2 =
     (case init ops s of
        Inl e \<Rightarrow> Inl e
      | Inr s1 \<Rightarrow>
         if \<not> is_confluent ops (rws s1) then Inl AssertionFailed
         else Inr (if test_less_than ops (rws s1) (word_to_rws_word ops w1)
                                                   (word_to_rws_word ops w2)
                   then TRUE else FALSE, s1))"

subsection \<open>Notions used to state the properties\<close>

text \<open>The generators that line 64 builds: one element for each letter below \<open>n\<close>.\<close>

definition gens_of :: "('r, 'g) ops \<Rightarrow> 'r \<Rightarrow> nat \<Rightarrow> 'r rwse list" where
  "gens_of ops r n = map (RWSE_letter ops r) [0 ..< n]"

text \<open>The three ways in which \<open>init\<close> returns: at line 46 (already initialised), at
  line 58 (cancelled), at line 68 (the semigroup is built).\<close>

definition init_noop :: "('r, 'g) kbfp \<Rightarrow> ('r, 'g) kbfp \<Rightarrow> bool" where
  "init_noop s s1 = (semigroup_p s \<noteq> None \<and> s1 = s)"

definition init_cancelled :: "('r, 'g) kbfp \<Rightarrow> ('r, 'g) kbfp \<Rightarrow> bool" where
  "init_cancelled s s1 =
     (semigroup_p s = None \<and> killed s1 \<and> semigroup_p s1 = None
      \<and> live s1 = live s \<and> next_addr s1 = next_addr s)"

definition init_built :: "('r, 'g) ops \<Rightarrow> ('r, 'g) kbfp \<Rightarrow> ('r, 'g) kbfp \<Rightarrow> bool" where
  "init_built ops s s1 =
     (semigroup_p s = None \<and> \<not> killed s1 \<and> is_confluent ops (rws s1)
      \<and> semigroup_p s1 = Some (new_Semigroup ops (gens_of ops (rws s1) (nrgens (cong s1))))
      \<and> next_addr s1 = next_addr s + nrgens (cong s1)
      \<and> live s1 = live s - {next_addr s ..< next_addr s1})"

text \<open>The \<^verbatim>\<open>Semigroup\<close> objects that the file can hold in \<^verbatim>\<open>_semigroup\<close>: the one
  line 66 constructs from the generators, changed only by the calls of lines 78 and 79.\<close>

inductive built_from :: "('r, 'g) ops \<Rightarrow> 'r rwse list \<Rightarrow> 'g \<Rightarrow> bool"
  for ops :: "('r, 'g) ops" and gs :: "'r rwse list" where
  bf_new: "built_from ops gs (new_Semigroup ops gs)"
| bf_batch: "built_from ops gs g \<Longrightarrow> built_from ops gs (set_batch_size ops g n)"
| bf_enum: "built_from ops gs g \<Longrightarrow> built_from ops gs (fst (enumerate_sg ops g k t))"

text \<open>The invariant of the object: once \<^verbatim>\<open>_semigroup\<close> is set, the rewriting system
  is the confluent one that passed line 61, and the semigroup was built from its
  generators. It holds when \<^verbatim>\<open>_semigroup\<close> is null, and every member function keeps it
  (lemmas \<open>kbfp_inv_start\<close>, \<open>kbfp_inv_init\<close>, \<open>kbfp_inv_run_steps\<close>, \<open>kbfp_inv_run\<close>,
  \<open>kbfp_inv_class_index\<close>, \<open>kbfp_inv_equals\<close>, \<open>kbfp_inv_less_than\<close>).\<close>

definition kbfp_inv :: "('r, 'g) ops \<Rightarrow> ('r, 'g) kbfp \<Rightarrow> bool" where
  "kbfp_inv ops s =
     (case semigroup_p s of
        None \<Rightarrow> True
      | Some g \<Rightarrow> is_confluent ops (rws s)
                  \<and> built_from ops (gens_of ops (rws s) (nrgens (cong s))) g)"

text \<open>The precondition on the congruence that line 52 asserts.\<close>

definition presentation_ok :: "'g cong_t \<Rightarrow> bool" where
  "presentation_ok c = (cong_semigroup c = None \<or> extra c \<noteq> [])"

text \<open>A state in which the flag was set before \<open>init\<close> could build the semigroup.\<close>

definition cancelled_early :: "('r, 'g) kbfp \<Rightarrow> bool" where
  "cancelled_early s = (killed s \<and> semigroup_p s = None \<and> presentation_ok (cong s))"

text \<open>A caller asking \<open>current_equals\<close> one query after the other.\<close>

primrec equals_all ::
  "('r, 'g) ops \<Rightarrow> (word_t \<times> word_t) list \<Rightarrow> ('r, 'g) kbfp
     \<Rightarrow> fault + (result_t list \<times> ('r, 'g) kbfp)" where
  "equals_all ops [] s = Inr ([], s)"
| "equals_all ops (q # qs) s =
     (case current_equals ops s (fst q) (snd q) of
        Inl e \<Rightarrow> Inl e
      | Inr (res, s1) \<Rightarrow>
         (case equals_all ops qs s1 of
            Inl e \<Rightarrow> Inl e
          | Inr (ress, s2) \<Rightarrow> Inr (res # ress, s2)))"

subsection \<open>What the specification promises of the collaborators\<close>

text \<open>Modelled from the spec: \<^verbatim>\<open>Congruence::init_relations\<close> and \<^verbatim>\<open>RWS::knuth_bendix\<close>
  are absent. Completion runs "until no new rule is produced (confluent) or cancel
  becomes true", and materialising the relations is "itself cancellable": called with
  the flag set, both return, and the flag, which only the scheduler writes, is still
  set.\<close>

definition cancellable :: "('r, 'g) ops \<Rightarrow> bool" where
  "cancellable ops =
     ((\<forall>c p. \<exists>rels. init_relations ops c p True = Some (rels, True))
      \<and> (\<forall>r. \<exists>r'. knuth_bendix ops r True = Some (r', True)))"

text \<open>Modelled from the spec: \<^verbatim>\<open>Semigroup::enumerate\<close> and \<^verbatim>\<open>Semigroup::set_batch_size\<close>
  are absent. \<open>grow\<close> "enumerates new elements by closure under multiplication until
  current_size() >= target_size, or the quotient is fully closed, or cancel becomes
  true"; the batch size "does not bound correctness, only pacing".\<close>

definition grow_contract :: "('r, 'g) ops \<Rightarrow> bool" where
  "grow_contract ops =
     ((\<forall>g k t. snd (enumerate_sg ops g k t)
                \<or> t \<le> current_size ops (fst (enumerate_sg ops g k t))
                \<or> sg_is_done ops (fst (enumerate_sg ops g k t)))
      \<and> (\<forall>g n. current_size ops (set_batch_size ops g n) = current_size ops g))"






subsection \<open>The loop of run(), in the words of the specification\<close>

text \<open>\<open>n\<close> calls of \<^verbatim>\<open>run(LIMIT_MAX)\<close>, one after the other.\<close>

primrec run_n :: "('r, 'g) ops \<Rightarrow> nat \<Rightarrow> ('r, 'g) kbfp \<Rightarrow> fault + ('r, 'g) kbfp" where
  "run_n ops 0 s = Inr s"
| "run_n ops (Suc n) s =
     (case run_steps ops (LIMIT_MAX ops) s of
        Inl e \<Rightarrow> Inl e
      | Inr s' \<Rightarrow> run_n ops n s')"

definition stopped :: "('r, 'g) ops \<Rightarrow> ('r, 'g) kbfp \<Rightarrow> bool" where
  "stopped ops s = (is_done ops s \<or> killed s)"

text \<open>The specification of \<^verbatim>\<open>run()\<close>: it "repeatedly calls run with the largest practical
  step budget until is_done() or cancellation". \<open>out\<close> is the outcome of some number
  \<open>n\<close> of calls, none of which started from a state that is done or cancelled, and a
  state it returns is done or cancelled.\<close>

definition run_spec :: "('r, 'g) ops \<Rightarrow> ('r, 'g) kbfp \<Rightarrow> fault + ('r, 'g) kbfp \<Rightarrow> bool" where
  "run_spec ops s out =
     (\<exists>n. run_n ops n s = out
          \<and> (\<forall>m<n. \<exists>sm. run_n ops m s = Inr sm \<and> \<not> stopped ops sm)
          \<and> (\<forall>s'. out = Inr s' \<longrightarrow> stopped ops s'))"

subsection \<open>An instance of the collaborators\<close>

text \<open>
  A small instance of \<open>ops\<close>, on which the properties below are evaluated. Its rewriting
  system is one whose completion is known beforehand: a word longer than two letters
  rewrites to its first two letters. On one generator \<open>a\<close> this is the presentation
  with the single relation \<open>aaa = aa\<close>, whose quotient has the two elements \<open>a\<close> and
  \<open>aa\<close>. \<open>knuth_bendix\<close> marks the system confluent unless it is cancelled; the rules
  handed to \<open>add_rules\<close> are recorded. The semigroup is a list of the elements found so
  far; an enumeration multiplies every element by every generator and appends the
  products that are new, until the target is reached or nothing new is found.
\<close>

record ex_rws =
  er_rules :: "relation_t list"
  er_confluent :: bool

type_synonym ex_elem = "ex_rws rwse"

record ex_sg =
  eg_gens :: "ex_elem list"
  eg_elems :: "ex_elem list"
  eg_closed :: bool
  eg_batch :: nat

definition ex_letter :: "nat \<Rightarrow> char" where
  "ex_letter a = (if a = 0 then CHR ''a'' else CHR ''b'')"

definition ex_rewrite :: "ex_rws \<Rightarrow> rws_word_t \<Rightarrow> rws_word_t" where
  "ex_rewrite r w = take 2 w"

definition ex_mul :: "ex_elem \<Rightarrow> ex_elem \<Rightarrow> ex_elem" where
  "ex_mul x y = (fst x, ex_rewrite (fst x) (snd x @ snd y))"

definition ex_fresh :: "ex_sg \<Rightarrow> ex_elem list" where
  "ex_fresh g =
     remdups (filter (\<lambda>z. z \<notin> set (eg_elems g))
                (concat (map (\<lambda>x. map (ex_mul x) (eg_gens g)) (eg_elems g))))"

function ex_enumerate :: "ex_sg \<Rightarrow> bool \<Rightarrow> nat \<Rightarrow> ex_sg \<times> bool" where
  "ex_enumerate g k t =
     (if k \<or> eg_closed g \<or> t \<le> length (eg_elems g) then (g, k)
      else if ex_fresh g = [] then (g\<lparr>eg_closed := True\<rparr>, k)
      else ex_enumerate (g\<lparr>eg_elems := eg_elems g @ ex_fresh g\<rparr>) k t)"
  by pat_completeness auto
termination
  by (relation "measure (\<lambda>(g, k, t). t - length (eg_elems g))") (auto simp: neq_Nil_conv)

declare ex_enumerate.simps [simp del]

fun index_of :: "'a list \<Rightarrow> 'a \<Rightarrow> nat option" where
  "index_of [] x = None"
| "index_of (y # ys) x = (if x = y then Some 0 else map_option Suc (index_of ys x))"

text \<open>Shorter words first, words of one length by their letters.\<close>

definition ex_less :: "rws_word_t \<Rightarrow> rws_word_t \<Rightarrow> bool" where
  "ex_less u v =
     (length u < length v
      \<or> length u = length v \<and> (u, v) \<in> lexord {(a, b). (of_char a :: nat) < of_char b})"

definition ex_ops :: "(ex_rws, ex_sg) ops" where
  "ex_ops =
     \<lparr> init_relations = (\<lambda>c p k. Some (relations c, k)),
       add_rules = (\<lambda>r ps. r\<lparr>er_rules := er_rules r @ ps\<rparr>),
       knuth_bendix = (\<lambda>r k. Some (if k then r else r\<lparr>er_confluent := True\<rparr>, k)),
       is_confluent = er_confluent,
       rewrite = ex_rewrite,
       test_less_than = (\<lambda>r u v. ex_less (ex_rewrite r u) (ex_rewrite r v)),
       word_to_rws_word = map ex_letter,
       new_Semigroup =
         (\<lambda>gs. \<lparr>eg_gens = gs, eg_elems = remdups gs, eg_closed = False, eg_batch = 8192\<rparr>),
       set_batch_size = (\<lambda>g n. g\<lparr>eg_batch := n\<rparr>),
       enumerate_sg = ex_enumerate,
       current_size = (\<lambda>g. length (eg_elems g)),
       position = (\<lambda>g x. index_of (eg_elems g) x),
       sg_is_done = eg_closed,
       LIMIT_MAX = 18446744073709551615 \<rparr>"

text \<open>The same collaborators with a scheduler that sets the flag while the enumeration
  runs: \<open>enumerate_sg\<close> sees it at its first check and returns at once.\<close>

definition ex_ops_interrupted :: "(ex_rws, ex_sg) ops" where
  "ex_ops_interrupted = ex_ops\<lparr>enumerate_sg := (\<lambda>g k t. (g, True))\<rparr>"

text \<open>The congruence on one generator with the relation \<open>aaa = aa\<close>, and the states of
  a \<^verbatim>\<open>KBFP\<close> object for it: freshly constructed (\<open>ex_start\<close>), after \<open>init\<close>
  (\<open>ex_ready\<close>), after one and two calls of \<open>run_steps\<close> with batch size \<open>b\<close>
  (\<open>ex_grown b\<close>, \<open>ex_done b\<close>).\<close>

definition ex_cong :: "ex_sg cong_t" where
  "ex_cong = \<lparr> nrgens = 1, relations = [([0, 0, 0], [0, 0])], extra = [], cong_semigroup = None \<rparr>"

definition ex_start :: "(ex_rws, ex_sg) kbfp" where
  "ex_start = \<lparr> killed = False, cong = ex_cong,
                rws = \<lparr>er_rules = [], er_confluent = False\<rparr>,
                semigroup_p = None, live = {}, next_addr = 0 \<rparr>"

definition ex_rws_done :: ex_rws where
  "ex_rws_done = \<lparr>er_rules = [([0, 0, 0], [0, 0])], er_confluent = True\<rparr>"

definition ex_index :: "ex_elem list \<Rightarrow> bool \<Rightarrow> nat \<Rightarrow> ex_sg" where
  "ex_index elems closed batch =
     \<lparr>eg_gens = [(ex_rws_done, ''a'')], eg_elems = elems, eg_closed = closed, eg_batch = batch\<rparr>"

definition ex_state :: "bool \<Rightarrow> ex_sg \<Rightarrow> (ex_rws, ex_sg) kbfp" where
  "ex_state k g = \<lparr> killed = k, cong = ex_cong, rws = ex_rws_done,
                    semigroup_p = Some g, live = {}, next_addr = 1 \<rparr>"

definition ex_ready :: "(ex_rws, ex_sg) kbfp" where
  "ex_ready = ex_state False (ex_index [(ex_rws_done, ''a'')] False 8192)"

definition ex_grown :: "nat \<Rightarrow> (ex_rws, ex_sg) kbfp" where
  "ex_grown b = ex_state False (ex_index [(ex_rws_done, ''a''), (ex_rws_done, ''aa'')] False b)"

definition ex_done :: "nat \<Rightarrow> (ex_rws, ex_sg) kbfp" where
  "ex_done b = ex_state False (ex_index [(ex_rws_done, ''a''), (ex_rws_done, ''aa'')] True b)"

text \<open>The state after a call of \<open>run_steps\<close> whose enumeration was interrupted.\<close>

definition ex_interrupted :: "nat \<Rightarrow> (ex_rws, ex_sg) kbfp" where
  "ex_interrupted b = ex_state True (ex_index [(ex_rws_done, ''a'')] False b)"

text \<open>The states when the flag is set before the first call of \<open>init\<close>: before it,
  after it, and after a second call.\<close>

definition ex_killed :: "relation_t list \<Rightarrow> (ex_rws, ex_sg) kbfp" where
  "ex_killed rules = \<lparr> killed = True, cong = ex_cong,
                        rws = \<lparr>er_rules = rules, er_confluent = False\<rparr>,
                        semigroup_p = None, live = {}, next_addr = 0 \<rparr>"


section \<open>Properties\<close>

subsection \<open>The free store and the ways init returns\<close>

lemma new_element_fields:
  "new_element x s = (p, s') \<Longrightarrow>
     p = (next_addr s, x) \<and> killed s' = killed s \<and> cong s' = cong s \<and> rws s' = rws s
     \<and> semigroup_p s' = semigroup_p s \<and> live s' = insert (next_addr s) (live s)
     \<and> next_addr s' = Suc (next_addr s)"
  by (auto simp: new_element_def)

lemma push_gens_fields:
  "push_gens ops is gens s = (gens', s') \<Longrightarrow>
     killed s' = killed s \<and> cong s' = cong s \<and> rws s' = rws s
     \<and> semigroup_p s' = semigroup_p s
     \<and> next_addr s' = next_addr s + length is
     \<and> live s' = live s \<union> {next_addr s ..< next_addr s + length is}
     \<and> map fst gens' = map fst gens @ [next_addr s ..< next_addr s + length is]
     \<and> map snd gens' = map snd gens @ map (RWSE_letter ops (rws s)) is"
proof (induction "is" arbitrary: gens s)
  case Nil
  then show ?case by simp
next
  case (Cons i "is")
  obtain x s1 where n: "new_element (RWSE_letter ops (rws s) i) s = (x, s1)"
    by (cases "new_element (RWSE_letter ops (rws s) i) s")
  from Cons.prems n have rec: "push_gens ops is (gens @ [x]) s1 = (gens', s')"
    by simp
  note f = new_element_fields [OF n]
  note ih = Cons.IH [OF rec]
  have a: "[next_addr s ..< next_addr s + length (i # is)]
             = next_addr s # [Suc (next_addr s) ..< Suc (next_addr s) + length is]"
    by (simp add: upt_rec)
  have b: "{next_addr s ..< next_addr s + length (i # is)}
             = insert (next_addr s) {Suc (next_addr s) ..< Suc (next_addr s) + length is}"
    by auto
  show ?case
    using ih f a b by auto
qed

lemma delete_element_fields:
  "killed (delete_element x s) = killed s \<and> cong (delete_element x s) = cong s
   \<and> rws (delete_element x s) = rws s \<and> semigroup_p (delete_element x s) = semigroup_p s
   \<and> next_addr (delete_element x s) = next_addr s
   \<and> live (delete_element x s) = live s - {fst x}"
  by (simp add: delete_element_def)

lemma really_delete_cont_fields:
  "killed (really_delete_cont cont s) = killed s \<and> cong (really_delete_cont cont s) = cong s
   \<and> rws (really_delete_cont cont s) = rws s
   \<and> semigroup_p (really_delete_cont cont s) = semigroup_p s
   \<and> next_addr (really_delete_cont cont s) = next_addr s
   \<and> live (really_delete_cont cont s) = live s - set (map fst cont)"
  by (induction cont arbitrary: s) (auto simp: delete_element_fields)

lemma init_Inr:
  assumes "init ops s = Inr s1"
  shows "init_noop s s1 \<or> init_cancelled s s1 \<or> init_built ops s s1"
proof (cases "semigroup_p s")
  case (Some g)
  with assms show ?thesis by (simp add: init_def init_noop_def)
next
  case None
  from assms None obtain rels k1 where ir:
    "init_relations ops (cong s) (cong_semigroup (cong s)) (killed s) = Some (rels, k1)"
    by (auto simp: init_def split: option.splits)
  define c1 where "c1 = (cong s)\<lparr>relations := rels\<rparr>"
  define r2 where "r2 = add_rules ops (add_rules ops (rws s) (relations c1)) (extra c1)"
  from assms None ir obtain r3 k2 where kb: "knuth_bendix ops r2 k1 = Some (r3, k2)"
    by (auto simp: init_def Let_def c1_def r2_def split: option.splits if_splits)
  define s1' where "s1' = s\<lparr>killed := k2, cong := c1, rws := r3\<rparr>"
  show ?thesis
  proof (cases k2)
    case True
    with assms None ir kb have "s1 = s1'"
      by (auto simp: init_def Let_def c1_def r2_def s1'_def split: if_splits)
    with True None show ?thesis by (simp add: init_cancelled_def s1'_def)
  next
    case False
    obtain gens s2 where pg: "push_gens ops [0 ..< nrgens (cong s1')] [] s1' = (gens, s2)"
      by (cases "push_gens ops [0 ..< nrgens (cong s1')] [] s1'")
    note pf = push_gens_fields [OF pg]
    from assms None ir kb False pg have conf: "is_confluent ops (rws s1')"
      and s1: "s1 = really_delete_cont gens (s2\<lparr>semigroup_p := Some (new_Semigroup ops (map snd gens))\<rparr>)"
      by (auto simp: init_def Let_def c1_def r2_def s1'_def split: if_splits)
    note rf = really_delete_cont_fields [of gens "s2\<lparr>semigroup_p := Some (new_Semigroup ops (map snd gens))\<rparr>"]
    have "init_built ops s s1"
      unfolding init_built_def
      using None False conf pf rf s1 by (auto simp: s1'_def gens_of_def)
    then show ?thesis by simp
  qed
qed

lemma init_keeps_presentation:
  assumes "init ops s = Inr s1"
  shows "nrgens (cong s1) = nrgens (cong s) \<and> extra (cong s1) = extra (cong s)
         \<and> cong_semigroup (cong s1) = cong_semigroup (cong s)"
  using assms
  by (auto simp: init_def Let_def really_delete_cont_fields split: option.splits if_splits prod.splits dest!: push_gens_fields)

lemma init_initialised: "semigroup_p s = Some g \<Longrightarrow> init ops s = Inr s"
  by (simp add: init_def)

lemma init_built_lives:
  "init ops s = Inr s1 \<Longrightarrow> \<not> killed s1 \<Longrightarrow> semigroup_p s1 \<noteq> None"
  by (drule init_Inr) (auto simp: init_noop_def init_cancelled_def init_built_def)

lemma init_killed_same_semigroup:
  "init ops s = Inr s1 \<Longrightarrow> killed s1 \<Longrightarrow> semigroup_p s1 = semigroup_p s"
  by (drule init_Inr) (auto simp: init_noop_def init_cancelled_def init_built_def)

lemma init_confluent:
  assumes "kbfp_inv ops s" and "init ops s = Inr s1" and "\<not> killed s1"
  shows "is_confluent ops (rws s1)"
  using init_Inr [OF assms(2)] assms(1,3)
  by (auto simp: init_noop_def init_cancelled_def init_built_def kbfp_inv_def)

lemma word_to_class_index_Inr:
  assumes "word_to_class_index ops s w = Inr (p, s')"
  shows "is_done ops s \<and> (\<exists>g. semigroup_p s = Some g \<and> position ops g (RWSE_word ops (rws s) w) = Some p)
         \<and> s' = s\<lparr>live := live s - {next_addr s}, next_addr := Suc (next_addr s)\<rparr>"
  using assms
  by (auto simp: word_to_class_index_def new_element_def delete_element_def Let_def
           split: if_splits option.splits)

subsection \<open>The invariant\<close>

lemma kbfp_inv_init:
  assumes "kbfp_inv ops s" and "init ops s = Inr s1"
  shows "kbfp_inv ops s1"
  using init_Inr [OF assms(2)] assms(1)
  by (auto simp: init_noop_def init_cancelled_def init_built_def kbfp_inv_def intro: bf_new)

lemma kbfp_inv_run_steps:
  assumes "kbfp_inv ops s" and "run_steps ops steps s = Inr s'"
  shows "kbfp_inv ops s'"
proof -
  from assms(2) obtain s1 where i: "init ops s = Inr s1"
    by (auto simp: run_steps_def split: if_splits sum.splits)
  have inv1: "kbfp_inv ops s1" using assms(1) i by (rule kbfp_inv_init)
  show ?thesis
  proof (cases "killed s1")
    case True
    with assms(2) i have "s' = s1" by (auto simp: run_steps_def split: if_splits)
    with inv1 show ?thesis by simp
  next
    case False
    with assms(2) i obtain g where g: "semigroup_p s1 = Some g"
      and s': "s' = s1\<lparr>killed := snd (enumerate_sg ops (set_batch_size ops g steps) False
                                       (current_size ops (set_batch_size ops g steps) + 1)),
                        semigroup_p := Some (fst (enumerate_sg ops (set_batch_size ops g steps) False
                                       (current_size ops (set_batch_size ops g steps) + 1)))\<rparr>"
      by (auto simp: run_steps_def Let_def split: if_splits option.splits prod.splits)
    from inv1 g show ?thesis
      unfolding s' by (auto simp: kbfp_inv_def intro: bf_batch bf_enum)
  qed
qed

lemma kbfp_inv_start: "semigroup_p s = None \<Longrightarrow> kbfp_inv ops s"
  by (simp add: kbfp_inv_def)

lemma kbfp_inv_class_index:
  assumes "kbfp_inv ops s" and "word_to_class_index ops s w = Inr (p, s')"
  shows "kbfp_inv ops s'"
  using assms(1) word_to_class_index_Inr [OF assms(2)]
  by (auto simp: kbfp_inv_def split: option.splits)

lemma kbfp_inv_equals:
  assumes "kbfp_inv ops s" and "current_equals ops s w1 w2 = Inr (res, s')"
  shows "kbfp_inv ops s'"
proof -
  from assms(2) have "init ops s = Inr s'"
    by (auto simp: current_equals_def split: sum.splits if_splits)
  with assms(1) show ?thesis by (rule kbfp_inv_init)
qed

lemma kbfp_inv_less_than:
  assumes "kbfp_inv ops s" and "current_less_than ops s w1 w2 = Inr (res, s')"
  shows "kbfp_inv ops s'"
proof -
  from assms(2) have "init ops s = Inr s'"
    by (auto simp: current_less_than_def split: sum.splits if_splits)
  with assms(1) show ?thesis by (rule kbfp_inv_init)
qed

lemma kbfp_inv_run_n:
  "kbfp_inv ops s \<Longrightarrow> run_n ops n s = Inr s' \<Longrightarrow> kbfp_inv ops s'"
proof (induction n arbitrary: s)
  case 0
  then show ?case by simp
next
  case (Suc n)
  from Suc.prems(2) obtain s1 where r: "run_steps ops (LIMIT_MAX ops) s = Inr s1"
    and n: "run_n ops n s1 = Inr s'"
    by (auto split: sum.splits)
  from Suc.prems(1) r have "kbfp_inv ops s1" by (rule kbfp_inv_run_steps)
  from Suc.IH [OF this n] show ?case .
qed

subsection \<open>The loop of run()\<close>

lemma run_unfold:
  "run ops s =
     (if stopped ops s then Some (Inr s)
      else case run_steps ops (LIMIT_MAX ops) s of
             Inl e \<Rightarrow> Some (Inl e)
           | Inr s' \<Rightarrow> run ops s')"
  by (subst run.simps) (auto simp: stopped_def)

lemma run_spec_stop: "stopped ops s \<Longrightarrow> run_spec ops s (Inr s)"
  unfolding run_spec_def by (rule exI [of _ 0]) simp

lemma run_spec_fault:
  "\<not> stopped ops s \<Longrightarrow> run_steps ops (LIMIT_MAX ops) s = Inl e \<Longrightarrow> run_spec ops s (Inl e)"
  unfolding run_spec_def by (rule exI [of _ "Suc 0"]) simp

lemma run_spec_step:
  assumes "\<not> stopped ops s" and "run_steps ops (LIMIT_MAX ops) s = Inr s'"
    and "run_spec ops s' out"
  shows "run_spec ops s out"
proof -
  from assms(3) obtain n where n: "run_n ops n s' = out"
    and before: "\<forall>m<n. \<exists>sm. run_n ops m s' = Inr sm \<and> \<not> stopped ops sm"
    and last: "\<forall>x. out = Inr x \<longrightarrow> stopped ops x"
    unfolding run_spec_def by blast
  have "\<exists>sm. run_n ops m s = Inr sm \<and> \<not> stopped ops sm" if "m < Suc n" for m
  proof (cases m)
    case 0
    with assms(1) show ?thesis by simp
  next
    case (Suc m')
    with that before assms(2) show ?thesis by simp
  qed
  with n last assms(2) show ?thesis
    unfolding run_spec_def by (intro exI [of _ "Suc n"]) simp
qed

lemma run_sound:
  assumes "run ops s = Some out"
  shows "run_spec ops s out"
proof (rule run.raw_induct [OF _ assms])
  fix run' :: "('a, 'b) ops \<Rightarrow> ('a, 'b) kbfp \<Rightarrow> (fault + ('a, 'b) kbfp) option"
    and ops s out
  assume IH: "\<And>ops s out. run' ops s = Some out \<Longrightarrow> run_spec ops s out"
    and eq: "(if \<not> killed s \<and> \<not> is_done ops s
              then case run_steps ops (LIMIT_MAX ops) s of
                     Inl e \<Rightarrow> Some (Inl e)
                   | Inr s' \<Rightarrow> run' ops s'
              else Some (Inr s)) = Some out"
  show "run_spec ops s out"
  proof (cases "stopped ops s")
    case True
    with eq have "out = Inr s" by (auto simp: stopped_def)
    with True show ?thesis by (simp add: run_spec_stop)
  next
    case False
    show ?thesis
    proof (cases "run_steps ops (LIMIT_MAX ops) s")
      case (Inl e)
      with False eq have "out = Inl e" by (auto simp: stopped_def)
      with False Inl show ?thesis by (simp add: run_spec_fault)
    next
      case (Inr s')
      with False eq have "run' ops s' = Some out" by (auto simp: stopped_def)
      then have "run_spec ops s' out" by (rule IH)
      with False Inr show ?thesis by (rule run_spec_step)
    qed
  qed
qed

lemma run_follows:
  "\<forall>m<n. \<exists>sm. run_n ops m s = Inr sm \<and> \<not> stopped ops sm \<Longrightarrow>
     run ops s = (case run_n ops n s of Inl e \<Rightarrow> Some (Inl e) | Inr s' \<Rightarrow> run ops s')"
proof (induction n arbitrary: s)
  case 0
  show ?case by simp
next
  case (Suc n)
  from Suc.prems have ns: "\<not> stopped ops s" by fastforce
  show ?case
  proof (cases "run_steps ops (LIMIT_MAX ops) s")
    case (Inl e)
    with ns show ?thesis by (subst run_unfold) simp
  next
    case (Inr s')
    have "\<forall>m<n. \<exists>sm. run_n ops m s' = Inr sm \<and> \<not> stopped ops sm"
    proof (intro allI impI)
      fix m assume "m < n"
      then have "Suc m < Suc n" by simp
      with Suc.prems obtain sm where "run_n ops (Suc m) s = Inr sm" and "\<not> stopped ops sm"
        by blast
      with Inr show "\<exists>sm. run_n ops m s' = Inr sm \<and> \<not> stopped ops sm" by simp
    qed
    from Suc.IH [OF this] Inr ns show ?thesis
      by (subst run_unfold) simp
  qed
qed

lemma run_complete: "run_spec ops s out \<Longrightarrow> run ops s = Some out"
proof -
  assume "run_spec ops s out"
  then obtain n where n: "run_n ops n s = out"
    and before: "\<forall>m<n. \<exists>sm. run_n ops m s = Inr sm \<and> \<not> stopped ops sm"
    and last: "\<forall>x. out = Inr x \<longrightarrow> stopped ops x"
    unfolding run_spec_def by blast
  from run_follows [OF before] n
  have r: "run ops s = (case out of Inl e \<Rightarrow> Some (Inl e) | Inr s' \<Rightarrow> run ops s')" by simp
  show ?thesis
  proof (cases out)
    case (Inl e)
    with r show ?thesis by simp
  next
    case (Inr s')
    with last have "stopped ops s'" by simp
    then have "run ops s' = Some (Inr s')" by (subst run_unfold) simp
    with r Inr show ?thesis by simp
  qed
qed

lemma kbfp_inv_run:
  assumes "kbfp_inv ops s" and "run ops s = Some (Inr s')"
  shows "kbfp_inv ops s'"
proof -
  from assms(2) have "run_spec ops s (Inr s')" by (rule run_sound)
  then obtain n where "run_n ops n s = Inr s'" unfolding run_spec_def by blast
  with assms(1) show ?thesis by (rule kbfp_inv_run_n)
qed

subsection \<open>Cancellation before init, and words in a closed enumeration\<close>

lemma init_cancelled_early:
  assumes "cancellable ops" and "cancelled_early s"
  shows "\<exists>s1. init ops s = Inr s1 \<and> cancelled_early s1
               \<and> live s1 = live s \<and> next_addr s1 = next_addr s"
proof -
  from assms(1) obtain rels where ir:
    "init_relations ops (cong s) (cong_semigroup (cong s)) True = Some (rels, True)"
    unfolding cancellable_def by blast
  define c1 where "c1 = (cong s)\<lparr>relations := rels\<rparr>"
  define r2 where "r2 = add_rules ops (add_rules ops (rws s) (relations c1)) (extra c1)"
  from assms(1) obtain r3 where kb: "knuth_bendix ops r2 True = Some (r3, True)"
    unfolding cancellable_def by blast
  have "init ops s = Inr (s\<lparr>killed := True, cong := c1, rws := r3\<rparr>)"
    using assms(2) ir kb
    by (simp add: init_def cancelled_early_def presentation_ok_def Let_def c1_def r2_def)
  moreover have "cancelled_early (s\<lparr>killed := True, cong := c1, rws := r3\<rparr>)"
    using assms(2) by (simp add: cancelled_early_def presentation_ok_def c1_def)
  ultimately show ?thesis by simp
qed

lemma equals_all_cancelled_early:
  assumes "cancellable ops"
  shows "cancelled_early s \<Longrightarrow>
           \<exists>s2. equals_all ops qs s = Inr (replicate (length qs) UNKNOWN, s2) \<and> cancelled_early s2"
proof (induction qs arbitrary: s)
  case Nil
  then show ?case by simp
next
  case (Cons q qs)
  from init_cancelled_early [OF assms Cons.prems]
  obtain s1 where i: "init ops s = Inr s1" and c: "cancelled_early s1" by blast
  from i c have e: "current_equals ops s (fst q) (snd q) = Inr (UNKNOWN, s1)"
    by (simp add: current_equals_def is_killed_def cancelled_early_def)
  from Cons.IH [OF c] obtain s2
    where "equals_all ops qs s1 = Inr (replicate (length qs) UNKNOWN, s2)" and "cancelled_early s2"
    by blast
  with e show ?case by simp
qed


subsection \<open>The instance\<close>

lemmas ex_defs = ex_enumerate.simps ex_ops_def ex_ops_interrupted_def ex_start_def ex_cong_def
  ex_ready_def ex_rws_done_def ex_state_def ex_index_def ex_grown_def ex_done_def
  ex_interrupted_def ex_killed_def ex_rewrite_def ex_letter_def ex_mul_def ex_fresh_def

lemma ex_cancellable: "cancellable ex_ops"
  by (simp add: cancellable_def ex_ops_def)

lemma ex_enumerate_target:
  "snd (ex_enumerate g k t) \<or> t \<le> length (eg_elems (fst (ex_enumerate g k t)))
   \<or> eg_closed (fst (ex_enumerate g k t))"
proof (induction g k t rule: ex_enumerate.induct)
  case (1 g k t)
  show ?case
  proof (cases "k \<or> eg_closed g \<or> t \<le> length (eg_elems g)")
    case True
    then show ?thesis by (subst (1 2 3) ex_enumerate.simps) auto
  next
    case stop: False
    show ?thesis
    proof (cases "ex_fresh g = []")
      case True
      with stop show ?thesis by (subst (1 2 3) ex_enumerate.simps) simp
    next
      case False
      from 1 [OF stop False] stop False show ?thesis
        by (subst (1 2 3) ex_enumerate.simps) simp
    qed
  qed
qed

lemma ex_grow_contract: "grow_contract ex_ops"
  using ex_enumerate_target by (simp add: grow_contract_def ex_ops_def)









subsection \<open>The instance, run\<close>

lemma ex_init: "init ex_ops ex_start = Inr ex_ready"
  by (simp add: init_def ex_defs new_element_def delete_element_def RWSE_letter_def RWSE_word_def
        upt_rec insert_Diff_if)

lemma ex_init_interrupted: "init ex_ops_interrupted ex_start = Inr ex_ready"
  by (simp add: init_def ex_defs new_element_def delete_element_def RWSE_letter_def RWSE_word_def
        upt_rec insert_Diff_if)

lemma ex_run_first: "run_steps ex_ops b ex_start = Inr (ex_grown b)"
  by (simp add: run_steps_def is_done_def ex_init) (simp add: ex_defs)

lemma ex_run_second: "run_steps ex_ops b (ex_grown b') = Inr (ex_done b)"
  by (simp add: run_steps_def is_done_def init_def ex_defs)

lemma ex_run_interrupted: "run_steps ex_ops_interrupted b ex_start = Inr (ex_interrupted b)"
  by (simp add: run_steps_def is_done_def ex_init_interrupted) (simp add: ex_defs)

lemma ex_run_interrupted_ready: "run_steps ex_ops_interrupted b ex_ready = Inr (ex_interrupted b)"
  by (simp add: run_steps_def is_done_def init_def ex_defs)

lemma ex_init_killed:
  "init ex_ops (ex_killed rules) = Inr (ex_killed (rules @ [([0, 0, 0], [0, 0])]))"
  by (simp add: init_def ex_defs)

lemma ex_init_killed_first:
  "init ex_ops (ex_killed []) = Inr (ex_killed [([0, 0, 0], [0, 0])])"
  using ex_init_killed [of "[]"] by simp

lemma ex_grow_contract_interrupted: "grow_contract ex_ops_interrupted"
  by (simp add: grow_contract_def ex_ops_interrupted_def ex_ops_def)


lemma ex_is_done: "is_done ex_ops (ex_done b)"
  by (simp add: is_done_def ex_defs)

section \<open>The claims\<close>

subsection \<open>C1: current_equals\<close>

text \<open>
  C1, as amended. For every pair of words, \<open>current_equals\<close> first runs \<open>init\<close>. From
  a state that satisfies the invariant, and when \<open>init\<close> returns, it returns the state
  \<open>init\<close> left and an answer that is \<open>UNKNOWN\<close> if and only if the flag is set at that
  moment, whether or not confluence was reached earlier. When the flag is clear the
  rewriting system is confluent, the assertion of line 104 holds, and the answer is
  \<open>TRUE\<close> exactly when the two words rewrite to the same word and \<open>FALSE\<close> otherwise.
  Nothing is asked of the enumeration: the answer is the same before any growth.
\<close>

theorem current_equals_unknown_iff_killed:
  assumes "kbfp_inv ops s" and "init ops s = Inr s1"
  shows "\<exists>res. current_equals ops s w1 w2 = Inr (res, s1)
           \<and> (res = UNKNOWN \<longleftrightarrow> killed s1)
           \<and> (\<not> killed s1 \<longrightarrow>
                 is_confluent ops (rws s1)
                 \<and> (res = TRUE \<longleftrightarrow> rewrite ops (rws s1) (word_to_rws_word ops w1)
                                       = rewrite ops (rws s1) (word_to_rws_word ops w2))
                 \<and> (res = FALSE \<longleftrightarrow> rewrite ops (rws s1) (word_to_rws_word ops w1)
                                       \<noteq> rewrite ops (rws s1) (word_to_rws_word ops w2)))"
proof (cases "killed s1")
  case True
  with assms(2) show ?thesis by (simp add: current_equals_def is_killed_def)
next
  case False
  with assms have "is_confluent ops (rws s1)" by (rule init_confluent)
  with False assms(2) show ?thesis by (simp add: current_equals_def is_killed_def)
qed

text \<open>On a freshly constructed object, before any enumeration: \<open>aaa\<close> and \<open>aa\<close> are
  equal.\<close>

theorem current_equals_unknown_iff_killed_witness:
  "kbfp_inv ex_ops ex_start \<and> init ex_ops ex_start = Inr ex_ready \<and> \<not> killed ex_ready
   \<and> current_equals ex_ops ex_start [0, 0, 0] [0, 0] = Inr (TRUE, ex_ready)"
proof -
  have h1: "kbfp_inv ex_ops ex_start" by (simp add: kbfp_inv_start ex_start_def)
  have nk: "\<not> killed ex_ready" by (simp add: ex_defs)
  from current_equals_unknown_iff_killed [OF h1 ex_init, of "[0, 0, 0]" "[0, 0]"]
  obtain res where r: "current_equals ex_ops ex_start [0, 0, 0] [0, 0] = Inr (res, ex_ready)"
    and t: "\<not> killed ex_ready \<longrightarrow>
              (res = TRUE \<longleftrightarrow> rewrite ex_ops (rws ex_ready) (word_to_rws_word ex_ops [0, 0, 0])
                                 = rewrite ex_ops (rws ex_ready) (word_to_rws_word ex_ops [0, 0]))"
    by blast
  from t nk have "res = TRUE" by (simp add: ex_defs)
  with h1 ex_init nk r show ?thesis by simp
qed

text \<open>The claim as stated fails. On a fresh object the first call of \<open>run_steps\<close>
  completes the rewriting system with the flag clear (the state \<open>init\<close> returns is
  \<open>ex_ready\<close>) and is then interrupted during the enumeration. Confluence was reached
  before the cancellation, and \<open>current_equals\<close> answers \<open>UNKNOWN\<close> all the same.\<close>

theorem current_equals_unknown_after_confluence:
  "init ex_ops_interrupted ex_start = Inr ex_ready
   \<and> \<not> killed ex_ready \<and> is_confluent ex_ops_interrupted (rws ex_ready)
   \<and> run_steps ex_ops_interrupted 1 ex_start = Inr (ex_interrupted 1)
   \<and> killed (ex_interrupted 1) \<and> rws (ex_interrupted 1) = rws ex_ready
   \<and> current_equals ex_ops_interrupted (ex_interrupted 1) [0] [0] = Inr (UNKNOWN, ex_interrupted 1)"
  by (simp add: ex_run_interrupted ex_init_interrupted)
     (simp add: current_equals_def is_killed_def init_def ex_defs)

subsection \<open>C2: progress of run(steps)\<close>

text \<open>
  C2, as amended. Take a call of \<open>run_steps\<close> made when the strategy is not cancelled and
  not done, and in which \<open>init\<close> returns. If the flag is set after \<open>init\<close>, the call
  returns the state \<open>init\<close> left. If the flag is clear after \<open>init\<close>, the call sets the
  batch size of the semigroup to \<open>steps\<close>, asks the enumeration for
  \<open>current_size() + 1\<close> elements, and returns the state with the semigroup and the flag
  the enumeration returned, whether or not it was interrupted; and unless the flag is
  set when the enumeration returns, the size has grown by at least one or the
  enumeration is closed. (\<open>g\<close> is the semigroup after \<open>init\<close>, \<open>g'\<close> the one the
  enumeration returns, \<open>k\<close> the flag it returns.)
\<close>

theorem run_steps_progress:
  assumes "grow_contract ops" and "\<not> killed s" and "\<not> is_done ops s" and "init ops s = Inr s1"
  shows "(killed s1 \<longrightarrow> run_steps ops steps s = Inr s1)
         \<and> (\<not> killed s1 \<longrightarrow>
               (\<exists>g g' k. semigroup_p s1 = Some g
                  \<and> current_size ops (set_batch_size ops g steps) = current_size ops g
                  \<and> enumerate_sg ops (set_batch_size ops g steps) False (current_size ops g + 1)
                       = (g', k)
                  \<and> run_steps ops steps s = Inr (s1\<lparr>killed := k, semigroup_p := Some g'\<rparr>)
                  \<and> (\<not> k \<longrightarrow> current_size ops g + 1 \<le> current_size ops g'
                              \<or> sg_is_done ops g')))"
proof (cases "killed s1")
  case True
  with assms(3,4) show ?thesis by (simp add: run_steps_def)
next
  case False
  with assms(4) obtain g where g: "semigroup_p s1 = Some g"
    using init_built_lives by blast
  define g1 where "g1 = set_batch_size ops g steps"
  have size: "current_size ops g1 = current_size ops g"
    using assms(1) by (simp add: grow_contract_def g1_def)
  obtain g' k where e: "enumerate_sg ops g1 False (current_size ops g + 1) = (g', k)"
    by (cases "enumerate_sg ops g1 False (current_size ops g + 1)")
  have r: "run_steps ops steps s = Inr (s1\<lparr>killed := k, semigroup_p := Some g'\<rparr>)"
    using assms(3,4) False g e size by (simp add: run_steps_def Let_def g1_def)
  have "k \<or> current_size ops g + 1 \<le> current_size ops g' \<or> sg_is_done ops g'"
    using assms(1) e unfolding grow_contract_def by (metis fst_conv snd_conv)
  then have p: "\<not> k \<longrightarrow> current_size ops g + 1 \<le> current_size ops g' \<or> sg_is_done ops g'"
    by blast
  from False g size e r p show ?thesis unfolding g1_def by blast
qed

text \<open>The first call of \<open>run_steps\<close> on a fresh object: the index holds \<open>a\<close> after
  \<open>init\<close>, and \<open>a\<close> and \<open>aa\<close> after the call. The same call on an initialised object
  when the enumeration is interrupted: the batch size is set and the state the
  enumeration returned is kept.\<close>

theorem run_steps_progress_witness:
  "grow_contract ex_ops \<and> \<not> killed ex_start \<and> \<not> is_done ex_ops ex_start
   \<and> init ex_ops ex_start = Inr ex_ready \<and> \<not> killed ex_ready
   \<and> run_steps ex_ops 1 ex_start = Inr (ex_grown 1) \<and> \<not> killed (ex_grown 1)
   \<and> map_option (current_size ex_ops) (semigroup_p ex_ready) = Some 1
   \<and> map_option (current_size ex_ops) (semigroup_p (ex_grown 1)) = Some 2
   \<and> map_option eg_batch (semigroup_p (ex_grown 1)) = Some 1
   \<and> grow_contract ex_ops_interrupted \<and> \<not> is_done ex_ops_interrupted ex_ready
   \<and> init ex_ops_interrupted ex_ready = Inr ex_ready
   \<and> run_steps ex_ops_interrupted 1 ex_ready = Inr (ex_interrupted 1)
   \<and> map_option eg_batch (semigroup_p (ex_interrupted 1)) = Some 1"
proof -
  have h2: "\<not> killed ex_start" by (simp add: ex_defs)
  have h3: "\<not> is_done ex_ops ex_start" by (simp add: is_done_def ex_defs)
  have nk: "\<not> killed ex_ready" by (simp add: ex_defs)
  from run_steps_progress [OF ex_grow_contract h2 h3 ex_init, of 1] nk
  obtain g g' k where g: "semigroup_p ex_ready = Some g"
    and e: "enumerate_sg ex_ops (set_batch_size ex_ops g 1) False (current_size ex_ops g + 1) = (g', k)"
    and r: "run_steps ex_ops 1 ex_start = Inr (ex_ready\<lparr>killed := k, semigroup_p := Some g'\<rparr>)"
    by blast
  from g e have "ex_ready\<lparr>killed := k, semigroup_p := Some g'\<rparr> = ex_grown 1"
    by (auto simp: ex_defs)
  with r have r1: "run_steps ex_ops 1 ex_start = Inr (ex_grown 1)" by simp
  have h3': "\<not> is_done ex_ops_interrupted ex_ready" by (simp add: is_done_def ex_defs)
  have i': "init ex_ops_interrupted ex_ready = Inr ex_ready" by (simp add: init_def ex_defs)
  from run_steps_progress [OF ex_grow_contract_interrupted nk h3' i', of 1] nk
  obtain h h' j where h: "semigroup_p ex_ready = Some h"
    and e': "enumerate_sg ex_ops_interrupted (set_batch_size ex_ops_interrupted h 1) False
               (current_size ex_ops_interrupted h + 1) = (h', j)"
    and r': "run_steps ex_ops_interrupted 1 ex_ready
               = Inr (ex_ready\<lparr>killed := j, semigroup_p := Some h'\<rparr>)"
    by blast
  from h e' have "ex_ready\<lparr>killed := j, semigroup_p := Some h'\<rparr> = ex_interrupted 1"
    by (auto simp: ex_defs)
  with r' have r2: "run_steps ex_ops_interrupted 1 ex_ready = Inr (ex_interrupted 1)" by simp
  have sizes: "\<not> killed (ex_grown 1)
    \<and> map_option (current_size ex_ops) (semigroup_p ex_ready) = Some 1
    \<and> map_option (current_size ex_ops) (semigroup_p (ex_grown 1)) = Some 2
    \<and> map_option eg_batch (semigroup_p (ex_grown 1)) = Some 1
    \<and> map_option eg_batch (semigroup_p (ex_interrupted 1)) = Some 1"
    by (simp add: ex_defs)
  from ex_grow_contract h2 h3 ex_init nk r1 sizes ex_grow_contract_interrupted h3' i' r2
  show ?thesis by simp
qed

text \<open>The claim as stated fails: the call is made on an initialised object that is
  neither cancelled nor done, the flag is set while the enumeration runs, and the call
  returns with the batch size set to \<open>1\<close>, the size still \<open>1\<close> and the enumeration not
  closed.\<close>

theorem run_steps_interrupted_no_progress:
  "grow_contract ex_ops_interrupted
   \<and> \<not> killed ex_ready \<and> \<not> is_done ex_ops_interrupted ex_ready
   \<and> run_steps ex_ops_interrupted 1 ex_ready = Inr (ex_interrupted 1)
   \<and> map_option (current_size ex_ops_interrupted) (semigroup_p ex_ready) = Some 1
   \<and> map_option (current_size ex_ops_interrupted) (semigroup_p (ex_interrupted 1)) = Some 1
   \<and> map_option (sg_is_done ex_ops_interrupted) (semigroup_p (ex_interrupted 1)) = Some False
   \<and> map_option eg_batch (semigroup_p (ex_interrupted 1)) = Some 1"
  by (simp add: ex_grow_contract_interrupted ex_run_interrupted_ready)
     (simp add: is_done_def ex_defs)

subsection \<open>C3: class indices and equality\<close>






subsection \<open>C4: word_to_class_index\<close>

text \<open>
  C4. The claim is that under the precondition \<open>is_done\<close> the lookup of
  \<open>word_to_class_index\<close> is never \<^verbatim>\<open>UNDEFINED\<close>, the branch of the assertion of line 94
  being unreachable. The code does not keep it: on the done object of the instance,
  whose enumeration holds \<open>a\<close> and \<open>aa\<close>, the empty word is reduced to the empty word,
  the lookup is \<^verbatim>\<open>UNDEFINED\<close>, and the call ends at the assertion of line 94.
\<close>

theorem class_index_of_empty_word_undefined:
  "is_done ex_ops (ex_done 1)
   \<and> RWSE_word ex_ops (rws (ex_done 1)) [] = (rws (ex_done 1), [])
   \<and> map_option (\<lambda>g. position ex_ops g (RWSE_word ex_ops (rws (ex_done 1)) []))
        (semigroup_p (ex_done 1)) = Some None
   \<and> word_to_class_index ex_ops (ex_done 1) [] = Inl AssertionFailed"
  by (simp add: ex_is_done)
     (simp add: word_to_class_index_def is_done_def ex_defs new_element_def delete_element_def
        RWSE_word_def)

subsection \<open>C5: init twice\<close>

text \<open>
  C5, as amended. A call of \<open>init\<close> on an object whose semigroup is built is a no-op;
  and after a call of \<open>init\<close> that found the semigroup built or returned with the flag
  clear, a second call returns the state of the first unchanged: nothing is fed to the
  rewriting system again.
\<close>

theorem init_twice_when_not_cancelled:
  assumes "init ops s = Inr s1" and "semigroup_p s \<noteq> None \<or> \<not> killed s1"
  shows "init ops s1 = Inr s1 \<and> (semigroup_p s \<noteq> None \<longrightarrow> s1 = s)"
proof -
  from assms have "semigroup_p s1 \<noteq> None"
    by (auto dest!: init_Inr simp: init_noop_def init_cancelled_def init_built_def)
  then have "init ops s1 = Inr s1" by (auto simp: init_def)
  moreover have "semigroup_p s \<noteq> None \<longrightarrow> s1 = s"
    using assms(1) by (auto simp: init_def)
  ultimately show ?thesis by simp
qed

theorem init_twice_when_not_cancelled_witness:
  "init ex_ops ex_start = Inr ex_ready \<and> \<not> killed ex_ready \<and> init ex_ops ex_ready = Inr ex_ready"
proof -
  have nk: "\<not> killed ex_ready" by (simp add: ex_defs)
  then have h: "semigroup_p ex_start \<noteq> None \<or> \<not> killed ex_ready" by simp
  from init_twice_when_not_cancelled [OF ex_init h] have "init ex_ops ex_ready = Inr ex_ready"
    by simp
  with ex_init nk show ?thesis by simp
qed

text \<open>The claim as stated fails: when the flag is set before the first call, \<open>init\<close>
  returns without building the semigroup, and a second call feeds the relation to the
  rewriting system once more. Two calls do not leave the state that one call leaves.\<close>

theorem init_twice_after_cancellation:
  "init ex_ops (ex_killed []) = Inr (ex_killed [([0, 0, 0], [0, 0])])
   \<and> init ex_ops (ex_killed [([0, 0, 0], [0, 0])])
       = Inr (ex_killed [([0, 0, 0], [0, 0]), ([0, 0, 0], [0, 0])])
   \<and> er_rules (rws (ex_killed [([0, 0, 0], [0, 0]), ([0, 0, 0], [0, 0])]))
       \<noteq> er_rules (rws (ex_killed [([0, 0, 0], [0, 0])]))"
  using ex_init_killed_first ex_init_killed [of "[([0, 0, 0], [0, 0])]"]
  by (simp add: ex_killed_def)

subsection \<open>C6: cancellation before init\<close>

text \<open>
  C6. If the flag is set before \<open>init\<close> is first called (and the congruence meets the
  precondition asserted at line 52), \<open>init\<close> returns: its two cancellable calls return
  at once, no element is allocated and the semigroup is not constructed. \<open>is_done\<close> is
  false afterwards, and every query of any later sequence of \<open>current_equals\<close> queries
  returns \<open>UNKNOWN\<close>, \<open>is_done\<close> staying false.
\<close>

theorem cancelled_before_init:
  assumes "cancellable ops" and "killed s" and "semigroup_p s = None"
    and "presentation_ok (cong s)"
  shows "\<exists>s1. init ops s = Inr s1 \<and> semigroup_p s1 = None \<and> next_addr s1 = next_addr s
              \<and> \<not> is_done ops s1
              \<and> (\<forall>qs. \<exists>s2. equals_all ops qs s1 = Inr (replicate (length qs) UNKNOWN, s2)
                            \<and> \<not> is_done ops s2)"
proof -
  from assms(2-4) have "cancelled_early s" by (simp add: cancelled_early_def)
  from init_cancelled_early [OF assms(1) this]
  obtain s1 where i: "init ops s = Inr s1" and c: "cancelled_early s1"
    and n: "next_addr s1 = next_addr s" by blast
  have nd: "\<not> is_done ops x" if "cancelled_early x" for x
    using that by (simp add: cancelled_early_def is_done_def)
  have "\<exists>s2. equals_all ops qs s1 = Inr (replicate (length qs) UNKNOWN, s2) \<and> \<not> is_done ops s2" for qs
    using equals_all_cancelled_early [OF assms(1) c, of qs] nd by blast
  with i c n nd show ?thesis by (auto simp: cancelled_early_def)
qed

theorem cancelled_before_init_witness:
  "cancellable ex_ops \<and> killed (ex_killed []) \<and> semigroup_p (ex_killed []) = None
   \<and> presentation_ok (cong (ex_killed []))
   \<and> init ex_ops (ex_killed []) = Inr (ex_killed [([0, 0, 0], [0, 0])])
   \<and> \<not> is_done ex_ops (ex_killed [([0, 0, 0], [0, 0])])
   \<and> (\<exists>s2. equals_all ex_ops [([0], [0]), ([0, 0], [0])] (ex_killed [([0, 0, 0], [0, 0])])
              = Inr ([UNKNOWN, UNKNOWN], s2))"
proof -
  have h2: "killed (ex_killed [])" by (simp add: ex_killed_def)
  have h3: "semigroup_p (ex_killed []) = None" by (simp add: ex_killed_def)
  have h4: "presentation_ok (cong (ex_killed []))"
    by (simp add: presentation_ok_def ex_killed_def ex_cong_def)
  from cancelled_before_init [OF ex_cancellable h2 h3 h4]
  obtain s1 where i: "init ex_ops (ex_killed []) = Inr s1" and d: "\<not> is_done ex_ops s1"
    and q: "\<forall>qs. \<exists>s2. equals_all ex_ops qs s1 = Inr (replicate (length qs) UNKNOWN, s2)
                       \<and> \<not> is_done ex_ops s2"
    by blast
  from i ex_init_killed_first have s1: "s1 = ex_killed [([0, 0, 0], [0, 0])]" by simp
  from q obtain s2 where
    "equals_all ex_ops [([0], [0]), ([0, 0], [0])] s1 = Inr (replicate (length [([0::nat], [0::nat]), ([0, 0], [0])]) UNKNOWN, s2)"
    by blast
  then have "\<exists>s2. equals_all ex_ops [([0], [0]), ([0, 0], [0])] (ex_killed [([0, 0, 0], [0, 0])])
                    = Inr ([UNKNOWN, UNKNOWN], s2)"
    unfolding s1 by (auto simp: numeral_2_eq_2)
  with ex_cancellable h2 h3 h4 i d show ?thesis unfolding s1 by simp
qed

subsection \<open>C7: current_less_than\<close>

text \<open>
  C7. For every pair of words, \<open>current_less_than\<close> first runs \<open>init\<close>. It never returns
  \<open>UNKNOWN\<close>. When the rewriting system is confluent it returns \<open>TRUE\<close> or \<open>FALSE\<close> as
  \<open>test_less_than\<close> says, whether or not the flag is set; when the strategy was
  cancelled before confluence it fails the assertion of line 114, where
  \<open>current_equals\<close> returns \<open>UNKNOWN\<close>.
\<close>

theorem current_less_than_never_unknown:
  assumes "init ops s = Inr s1"
  shows "(\<forall>s'. current_less_than ops s w1 w2 \<noteq> Inr (UNKNOWN, s'))
         \<and> (is_confluent ops (rws s1) \<longrightarrow>
              current_less_than ops s w1 w2
                = Inr (if test_less_than ops (rws s1) (word_to_rws_word ops w1) (word_to_rws_word ops w2)
                       then TRUE else FALSE, s1))
         \<and> (killed s1 \<and> \<not> is_confluent ops (rws s1) \<longrightarrow>
              current_less_than ops s w1 w2 = Inl AssertionFailed
              \<and> current_equals ops s w1 w2 = Inr (UNKNOWN, s1))"
  using assms by (simp add: current_less_than_def current_equals_def is_killed_def)

text \<open>Cancelled before confluence, the two queries part ways; on a fresh object that
  is not cancelled, \<open>a\<close> is less than \<open>aa\<close>.\<close>

theorem current_less_than_never_unknown_witness:
  "init ex_ops (ex_killed []) = Inr (ex_killed [([0, 0, 0], [0, 0])])
   \<and> killed (ex_killed [([0, 0, 0], [0, 0])])
   \<and> \<not> is_confluent ex_ops (rws (ex_killed [([0, 0, 0], [0, 0])]))
   \<and> current_less_than ex_ops (ex_killed []) [0] [0, 0] = Inl AssertionFailed
   \<and> current_equals ex_ops (ex_killed []) [0] [0, 0] = Inr (UNKNOWN, ex_killed [([0, 0, 0], [0, 0])])
   \<and> init ex_ops ex_start = Inr ex_ready \<and> is_confluent ex_ops (rws ex_ready)
   \<and> current_less_than ex_ops ex_start [0] [0, 0] = Inr (TRUE, ex_ready)"
proof -
  have k: "killed (ex_killed [([0, 0, 0], [0, 0])])
           \<and> \<not> is_confluent ex_ops (rws (ex_killed [([0, 0, 0], [0, 0])]))"
    by (simp add: ex_defs)
  have c: "is_confluent ex_ops (rws ex_ready)" by (simp add: ex_defs)
  from current_less_than_never_unknown [OF ex_init_killed_first, of "[0]" "[0, 0]"] k
  have a: "current_less_than ex_ops (ex_killed []) [0] [0, 0] = Inl AssertionFailed
           \<and> current_equals ex_ops (ex_killed []) [0] [0, 0]
               = Inr (UNKNOWN, ex_killed [([0, 0, 0], [0, 0])])"
    by simp
  from current_less_than_never_unknown [OF ex_init, of "[0]" "[0, 0]"] c
  have "current_less_than ex_ops ex_start [0] [0, 0]
          = Inr (if test_less_than ex_ops (rws ex_ready) (word_to_rws_word ex_ops [0])
                      (word_to_rws_word ex_ops [0, 0]) then TRUE else FALSE, ex_ready)"
    by simp
  then have b: "current_less_than ex_ops ex_start [0] [0, 0] = Inr (TRUE, ex_ready)"
    by (simp add: ex_defs ex_less_def)
  from ex_init_killed_first k a ex_init c b show ?thesis by simp
qed

subsection \<open>C8: run()\<close>

text \<open>
  C8. \<open>run\<close> refines its specification: it returns an outcome exactly when repeated
  calls of \<open>run_steps\<close> with \<open>LIMIT_MAX\<close>, each started from a state that is neither
  done nor cancelled, lead to that outcome, a returned state being done or cancelled.
  The flag is tested before every call: from a state in which it is set, \<open>run\<close> returns
  at once and leaves the state as it is.
\<close>

theorem run_refines_run_spec:
  "(run ops s = Some out \<longleftrightarrow> run_spec ops s out)
   \<and> (killed s \<longrightarrow> run ops s = Some (Inr s))"
proof -
  have "killed s \<longrightarrow> run ops s = Some (Inr s)"
    by (subst run_unfold) (simp add: stopped_def)
  then show ?thesis
    using run_sound run_complete by blast
qed

text \<open>On a fresh object \<open>run\<close> makes two calls and returns the closed enumeration; on
  an object whose flag is set it makes none.\<close>

theorem run_refines_run_spec_witness:
  "run_spec ex_ops ex_start (Inr (ex_done (LIMIT_MAX ex_ops)))
   \<and> run ex_ops ex_start = Some (Inr (ex_done (LIMIT_MAX ex_ops)))
   \<and> killed (ex_interrupted 1) \<and> run ex_ops (ex_interrupted 1) = Some (Inr (ex_interrupted 1))"
proof -
  have s0: "\<not> stopped ex_ops ex_start" by (simp add: stopped_def is_done_def ex_defs)
  have s1: "\<not> stopped ex_ops (ex_grown b)" for b by (simp add: stopped_def is_done_def ex_defs)
  have s2: "stopped ex_ops (ex_done b)" for b by (simp add: stopped_def ex_is_done)
  have rs: "run_spec ex_ops ex_start (Inr (ex_done (LIMIT_MAX ex_ops)))"
    unfolding run_spec_def
    by (rule exI [of _ "Suc (Suc 0)"])
       (simp add: ex_run_first ex_run_second s0 s1 s2 less_Suc_eq)
  have k: "killed (ex_interrupted 1)" by (simp add: ex_defs)
  from run_refines_run_spec [of ex_ops ex_start "Inr (ex_done (LIMIT_MAX ex_ops))"] rs
  have r1: "run ex_ops ex_start = Some (Inr (ex_done (LIMIT_MAX ex_ops)))" by simp
  from run_refines_run_spec [of ex_ops "ex_interrupted 1" "Inr (ex_interrupted 1)"] k
  have r2: "run ex_ops (ex_interrupted 1) = Some (Inr (ex_interrupted 1))" by simp
  from rs r1 k r2 show ?thesis by simp
qed

subsection \<open>C9: the generator elements are released\<close>

text \<open>
  C9. On every path on which \<open>init\<close> returns, the elements it allocated (those at the
  addresses from \<open>next_addr\<close> before the call up to \<open>next_addr\<close> after it) are deleted
  when it returns, and no other element is touched. On the two early returns, already
  initialised or cancelled, nothing was allocated; when the semigroup is built, one
  element for each generator was.
\<close>

theorem init_releases_generators:
  assumes "init ops s = Inr s1"
  shows "live s1 = live s - {next_addr s ..< next_addr s1} \<and> next_addr s \<le> next_addr s1
         \<and> (semigroup_p s \<noteq> None \<or> killed s1 \<longrightarrow> next_addr s1 = next_addr s)
         \<and> (semigroup_p s = None \<and> \<not> killed s1 \<longrightarrow>
              next_addr s1 = next_addr s + nrgens (cong s1))"
  using init_Inr [OF assms]
  by (auto simp: init_noop_def init_cancelled_def init_built_def)

text \<open>Building the semigroup on one generator: one element is allocated at address 0
  and deleted. Cancelled: none is allocated.\<close>

theorem init_releases_generators_witness:
  "init ex_ops ex_start = Inr ex_ready \<and> next_addr ex_start = 0 \<and> next_addr ex_ready = 1
   \<and> live ex_start = {} \<and> live ex_ready = {}
   \<and> init ex_ops (ex_killed []) = Inr (ex_killed [([0, 0, 0], [0, 0])])
   \<and> next_addr (ex_killed [([0, 0, 0], [0, 0])]) = next_addr (ex_killed [])"
proof -
  have f: "next_addr ex_start = 0 \<and> next_addr ex_ready = 1 \<and> live ex_start = {}"
    by (simp add: ex_defs)
  from init_releases_generators [OF ex_init] f have a: "live ex_ready = {}" by simp
  have k: "killed (ex_killed [([0, 0, 0], [0, 0])])" by (simp add: ex_defs)
  from init_releases_generators [OF ex_init_killed_first] k
  have b: "next_addr (ex_killed [([0, 0, 0], [0, 0])]) = next_addr (ex_killed [])" by simp
  from ex_init f a ex_init_killed_first b show ?thesis by simp
qed

subsection \<open>C10: a cancelled run(steps) enumerates nothing\<close>

text \<open>
  C10. If the flag is set when \<open>run_steps\<close> reaches the test of line 75, that is in the
  state \<open>init\<close> returns, the call returns that state: it neither sets the batch size nor
  calls the enumeration. The semigroup is the one the object had before the call, so
  its size and every class index are unchanged.
\<close>

theorem run_steps_killed_frame:
  assumes "init ops s = Inr s1" and "killed s1"
  shows "run_steps ops steps s = Inr s1 \<and> semigroup_p s1 = semigroup_p s
         \<and> map_option (current_size ops) (semigroup_p s1) = map_option (current_size ops) (semigroup_p s)
         \<and> map_option (position ops) (semigroup_p s1) = map_option (position ops) (semigroup_p s)"
proof -
  have same: "semigroup_p s1 = semigroup_p s"
    using assms by (rule init_killed_same_semigroup)
  have "\<not> is_done ops s"
  proof
    assume d: "is_done ops s"
    then obtain g where g: "semigroup_p s = Some g" and nk: "\<not> killed s"
      by (auto simp: is_done_def split: option.splits)
    from g assms(1) have "s1 = s" by (simp add: init_def)
    with nk assms(2) show False by simp
  qed
  then have "run_steps ops steps s = Inr s1"
    using assms by (simp add: run_steps_def)
  with same show ?thesis by simp
qed

text \<open>An initialised object whose flag is set, and a fresh one whose flag is set.\<close>

theorem run_steps_killed_frame_witness:
  "init ex_ops (ex_interrupted 1) = Inr (ex_interrupted 1) \<and> killed (ex_interrupted 1)
   \<and> run_steps ex_ops 7 (ex_interrupted 1) = Inr (ex_interrupted 1)
   \<and> init ex_ops (ex_killed []) = Inr (ex_killed [([0, 0, 0], [0, 0])])
   \<and> run_steps ex_ops 7 (ex_killed []) = Inr (ex_killed [([0, 0, 0], [0, 0])])
   \<and> semigroup_p (ex_killed [([0, 0, 0], [0, 0])]) = None"
proof -
  have i: "init ex_ops (ex_interrupted 1) = Inr (ex_interrupted 1)"
    by (simp add: init_def ex_defs)
  have k: "killed (ex_interrupted 1)" by (simp add: ex_defs)
  have k': "killed (ex_killed [([0, 0, 0], [0, 0])])" by (simp add: ex_defs)
  from run_steps_killed_frame [OF i k, of 7]
  have a: "run_steps ex_ops 7 (ex_interrupted 1) = Inr (ex_interrupted 1)" by simp
  from run_steps_killed_frame [OF ex_init_killed_first k', of 7]
  have b: "run_steps ex_ops 7 (ex_killed []) = Inr (ex_killed [([0, 0, 0], [0, 0])])
           \<and> semigroup_p (ex_killed [([0, 0, 0], [0, 0])]) = None"
    by (simp add: ex_defs)
  from i k a ex_init_killed_first b show ?thesis by simp
qed

end
